theory Spec2Isabelle
  imports Complex_Main "HOL-Library.Word" "HOL-Library.Log_Nat"
begin

unbundle bit_operations_syntax

section \<open>The similarity kernel of \<^verbatim>\<open>lib/phash/CrossCorrelation.cpp\<close>\<close>

text \<open>
  The file under verification defines the class \<^verbatim>\<open>Shipwreck::Phash::CrossCorrelation\<close>:
  a normalised cross-correlation of two byte vectors over all cyclic offsets, and a
  Hamming distance of 64-bit words.

  Conventions of the embedding.
  \<^item> A \<^verbatim>\<open>std::vector\<close> is a list. The sizes are cast to \<^verbatim>\<open>int\<close> by the source; the
    embedding uses unbounded integers for sizes and indices, that is, it covers vectors
    of fewer than \<open>2\<^sup>3\<^sup>1\<close> elements.
  \<^item> An element access \<^verbatim>\<open>v[i]\<close> outside the vector is undefined behaviour in C++; here
    it is the error \<open>Out_Of_Range\<close>, an \<^verbatim>\<open>assert\<close> that fails is \<open>Assertion_Failed\<close>, and
    a vector constructed with a negative size is \<open>Length_Error\<close>.
  \<^item> The arithmetic of the type \<^verbatim>\<open>float\<close> is a parameter of every function (a record of
    operations), so that a theorem proved for all such records holds whatever the
    rounding of the target is. Two arithmetics are defined below: exact arithmetic on
    the reals, and IEEE 754 binary32 with rounding to nearest, ties to even.
\<close>

subsection \<open>Errors and vector access\<close>

datatype error = Out_Of_Range | Assertion_Failed | Length_Error

definition vec_at :: "'a list \<Rightarrow> int \<Rightarrow> error + 'a" where
  "vec_at v i = (if 0 \<le> i \<and> i < int (length v) then Inr (v ! nat i) else Inl Out_Of_Range)"

definition vec_put :: "'a list \<Rightarrow> int \<Rightarrow> 'a \<Rightarrow> error + 'a list" where
  "vec_put v i a = (if 0 \<le> i \<and> i < int (length v) then Inr (v[nat i := a]) else Inl Out_Of_Range)"

subsection \<open>The arithmetic of \<^verbatim>\<open>float\<close>\<close>

record 'f float_ops =
  f_of_int :: "int \<Rightarrow> 'f"
  f_add :: "'f \<Rightarrow> 'f \<Rightarrow> 'f"
  f_sub :: "'f \<Rightarrow> 'f \<Rightarrow> 'f"
  f_mul :: "'f \<Rightarrow> 'f \<Rightarrow> 'f"
  f_div :: "'f \<Rightarrow> 'f \<Rightarrow> 'f"
  f_less :: "'f \<Rightarrow> 'f \<Rightarrow> bool"
  f_eq :: "'f \<Rightarrow> 'f \<Rightarrow> bool"
  f_sqrt :: "'f \<Rightarrow> 'f"

text \<open>The literal \<^verbatim>\<open>0.0f\<close>, and the \<^verbatim>\<open>int\<close> literal \<^verbatim>\<open>0\<close> converted to \<^verbatim>\<open>float\<close>.\<close>

definition f_zero :: "'f float_ops \<Rightarrow> 'f" where
  "f_zero ops = f_of_int ops 0"

text \<open>\<^verbatim>\<open>std::max(a, b)\<close> is \<^verbatim>\<open>(a < b) ? b : a\<close>.\<close>

definition f_max :: "'f float_ops \<Rightarrow> 'f \<Rightarrow> 'f \<Rightarrow> 'f" where
  "f_max ops a b = (if f_less ops a b then b else a)"

subsection \<open>\<^verbatim>\<open>GetCrossCorrelationForOffset\<close> (lines 91 to 112)\<close>

text \<open>
  The inner loop \<^verbatim>\<open>for (; i < th; i++)\<close> of lines 102 to 108, on the state
  \<open>(num, denx, deny)\<close>.
\<close>

function offset_inner ::
  "'f float_ops \<Rightarrow> 'f list \<Rightarrow> 'f list \<Rightarrow> int \<Rightarrow> int \<Rightarrow> int \<Rightarrow> 'f \<times> 'f \<times> 'f
     \<Rightarrow> error + 'f \<times> 'f \<times> 'f" where
  "offset_inner ops x y yo th i (num, denx, deny) =
     (if i < th then
        (case vec_at x i of
           Inl e \<Rightarrow> Inl e
         | Inr dx \<Rightarrow>
            (case vec_at y (i + yo) of
               Inl e \<Rightarrow> Inl e
             | Inr dy \<Rightarrow>
                 offset_inner ops x y yo th (i + 1)
                   (f_add ops num (f_mul ops dx dy),
                    f_add ops denx (f_mul ops dx dx),
                    f_add ops deny (f_mul ops dy dy))))
      else Inr (num, denx, deny))"
  by pat_completeness auto
termination
  by (relation "measure (\<lambda>(ops, x, y, yo, th, i, s). nat (th - i))") auto

declare offset_inner.simps [simp del]

text \<open>The outer loop \<^verbatim>\<open>for (int j = 0; j < 2; j++)\<close> of lines 97 to 109.\<close>

function offset_outer ::
  "'f float_ops \<Rightarrow> 'f list \<Rightarrow> 'f list \<Rightarrow> int \<Rightarrow> int \<Rightarrow> 'f \<times> 'f \<times> 'f
     \<Rightarrow> error + 'f \<times> 'f \<times> 'f" where
  "offset_outer ops x y offset j s =
     (if j < 2 then
        (let th = (if j = 0 then int (length x) - offset else int (length x));
             i = (if j = 0 then 0 else int (length x) - offset);
             yo = offset - j * int (length x)
         in case offset_inner ops x y yo th i s of
              Inl e \<Rightarrow> Inl e
            | Inr s' \<Rightarrow> offset_outer ops x y offset (j + 1) s')
      else Inr s)"
  by pat_completeness auto
termination
  by (relation "measure (\<lambda>(ops, x, y, offset, j, s). nat (2 - j))") auto

declare offset_outer.simps [simp del]

text \<open>Line 111: the guarded ratio.\<close>

definition offset_ratio :: "'f float_ops \<Rightarrow> 'f \<times> 'f \<times> 'f \<Rightarrow> 'f" where
  "offset_ratio ops s =
     (case s of (num, denx, deny) \<Rightarrow>
        if f_less ops num (f_zero ops) \<or> f_eq ops denx (f_zero ops) \<or> f_eq ops deny (f_zero ops)
        then f_zero ops
        else f_div ops (f_mul ops num num) (f_mul ops denx deny))"

definition GetCrossCorrelationForOffset ::
  "'f float_ops \<Rightarrow> 'f list \<Rightarrow> 'f list \<Rightarrow> int \<Rightarrow> error + 'f" where
  "GetCrossCorrelationForOffset ops x y offset =
     (case offset_outer ops x y offset 0 (f_zero ops, f_zero ops, f_zero ops) of
        Inl e \<Rightarrow> Inl e
      | Inr s \<Rightarrow> Inr (offset_ratio ops s))"

subsection \<open>\<^verbatim>\<open>GetCrossCorrelationCore\<close> on float vectors (lines 80 to 89)\<close>

text \<open>The loop over the offsets \<open>d = 0, \<dots>, x.size() - 1\<close>, on the state \<open>max\<close>.\<close>

function max_loop :: "'f float_ops \<Rightarrow> 'f list \<Rightarrow> 'f list \<Rightarrow> nat \<Rightarrow> 'f \<Rightarrow> error + 'f" where
  "max_loop ops x y d mx =
     (if d < length x then
        (case GetCrossCorrelationForOffset ops x y (int d) of
           Inl e \<Rightarrow> Inl e
         | Inr v \<Rightarrow> max_loop ops x y (d + 1) (f_max ops mx v))
      else Inr mx)"
  by pat_completeness auto
termination
  by (relation "measure (\<lambda>(ops, x, y, d, mx). length x - d)") auto

declare max_loop.simps [simp del]

definition GetCrossCorrelationCore_float ::
  "'f float_ops \<Rightarrow> 'f list \<Rightarrow> 'f list \<Rightarrow> error + 'f" where
  "GetCrossCorrelationCore_float ops x y =
     (case max_loop ops x y 0 (f_zero ops) of
        Inl e \<Rightarrow> Inl e
      | Inr mx \<Rightarrow> Inr (f_sqrt ops mx))"

subsection \<open>\<^verbatim>\<open>GetCrossCorrelationCore\<close> on byte vectors (lines 32 to 56)\<close>

text \<open>
  Lines 37 to 42. The sums are of type \<^verbatim>\<open>int\<close>: 32-bit words read in two's complement, whose addition wraps
  here (the overflow is undefined behaviour in C++; it needs more than eight million
  elements). A byte is promoted to \<^verbatim>\<open>int\<close> without change of value.
\<close>

function sum_loop ::
  "8 word list \<Rightarrow> 8 word list \<Rightarrow> int \<Rightarrow> int \<Rightarrow> 32 word \<times> 32 word
     \<Rightarrow> error + 32 word \<times> 32 word" where
  "sum_loop x y len i (sumX, sumY) =
     (if i < len then
        (case vec_at x i of
           Inl e \<Rightarrow> Inl e
         | Inr xi \<Rightarrow>
            (case vec_at y i of
               Inl e \<Rightarrow> Inl e
             | Inr yi \<Rightarrow> sum_loop x y len (i + 1) (sumX + ucast xi, sumY + ucast yi)))
      else Inr (sumX, sumY))"
  by pat_completeness auto
termination
  by (relation "measure (\<lambda>(x, y, len, i, s). nat (len - i))") auto

declare sum_loop.simps [simp del]

text \<open>Lines 50 to 53: the loop that fills \<open>fx\<close> and \<open>fy\<close>.\<close>

function center_loop ::
  "'f float_ops \<Rightarrow> 8 word list \<Rightarrow> 8 word list \<Rightarrow> int \<Rightarrow> 'f \<Rightarrow> 'f \<Rightarrow> int
     \<Rightarrow> 'f list \<times> 'f list \<Rightarrow> error + 'f list \<times> 'f list" where
  "center_loop ops x y len meanX meanY i (fx, fy) =
     (if i < len then
        (case vec_at x i of
           Inl e \<Rightarrow> Inl e
         | Inr xi \<Rightarrow>
            (case vec_put fx i (f_sub ops (f_of_int ops (uint xi)) meanX) of
               Inl e \<Rightarrow> Inl e
             | Inr fx' \<Rightarrow>
                (case vec_at y i of
                   Inl e \<Rightarrow> Inl e
                 | Inr yi \<Rightarrow>
                    (case vec_put fy i (f_sub ops (f_of_int ops (uint yi)) meanY) of
                       Inl e \<Rightarrow> Inl e
                     | Inr fy' \<Rightarrow>
                         center_loop ops x y len meanX meanY (i + 1) (fx', fy')))))
      else Inr (fx, fy))"
  by pat_completeness auto
termination
  by (relation "measure (\<lambda>(ops, x, y, len, meanX, meanY, i, s). nat (len - i))") auto

declare center_loop.simps [simp del]

text \<open>
  The two means of lines 44 and 45, and the vectors \<^verbatim>\<open>fx(length)\<close>, \<^verbatim>\<open>fy(length)\<close> of lines
  47 and 48, which start filled with zeros.
\<close>

definition mean_of :: "'f float_ops \<Rightarrow> 32 word \<Rightarrow> int \<Rightarrow> 'f" where
  "mean_of ops sumX len = f_div ops (f_of_int ops (sint sumX)) (f_of_int ops len)"

definition GetCrossCorrelationCore_bytes ::
  "'f float_ops \<Rightarrow> 8 word list \<Rightarrow> 8 word list \<Rightarrow> int \<Rightarrow> error + 'f" where
  "GetCrossCorrelationCore_bytes ops x y len =
     (if \<not> len \<le> int (length x) then Inl Assertion_Failed
      else if \<not> len \<le> int (length y) then Inl Assertion_Failed
      else
        (case sum_loop x y len 0 (0, 0) of
           Inl e \<Rightarrow> Inl e
         | Inr (sumX, sumY) \<Rightarrow>
            (let meanX = mean_of ops sumX len;
                 meanY = mean_of ops sumY len
             in if len < 0 then Inl Length_Error
                else
                  (case center_loop ops x y len meanX meanY 0
                          (replicate (nat len) (f_zero ops), replicate (nat len) (f_zero ops)) of
                     Inl e \<Rightarrow> Inl e
                   | Inr (fx, fy) \<Rightarrow> GetCrossCorrelationCore_float ops fx fy))))"

subsection \<open>\<^verbatim>\<open>GetCrossCorrelation\<close> (lines 9 to 13)\<close>

definition GetCrossCorrelation ::
  "'f float_ops \<Rightarrow> 8 word list \<Rightarrow> 8 word list \<Rightarrow> error + 'f" where
  "GetCrossCorrelation ops coefficients1 coefficients2 =
     GetCrossCorrelationCore_bytes ops coefficients1 coefficients2
       (int (min (length coefficients1) (length coefficients2)))"

subsection \<open>The Hamming distance (lines 15 to 29 and 114 to 126)\<close>

text \<open>
  Modelled from the spec: \<^verbatim>\<open>__builtin_popcountll\<close> is a builtin of the compiler, not code
  of the repository; the specification calls it the hardware population count, the
  number of set bits of the word.
\<close>

definition builtin_popcountll :: "64 word \<Rightarrow> int" where
  "builtin_popcountll v = int (length (filter (bit v) [0..<64]))"

text \<open>
  Which of the two paths of \<^verbatim>\<open>GetHammingDistanceCore\<close> is compiled depends on the macros
  \<^verbatim>\<open>__x86_64__\<close> and \<^verbatim>\<open>__POPCNT__\<close>; the flag \<open>popcnt\<close> says that both are defined. The
  result of the software path is cast from \<^verbatim>\<open>uint64_t\<close> to \<^verbatim>\<open>int\<close>.
\<close>

definition GetHammingDistanceCore :: "bool \<Rightarrow> 64 word \<Rightarrow> int" where
  "GetHammingDistanceCore popcnt v =
     (if popcnt then builtin_popcountll v
      else
        (let v1 = v - (drop_bit 1 v AND 0x5555555555555555);
             v2 = (v1 AND 0x3333333333333333) + (drop_bit 2 v1 AND 0x3333333333333333)
         in sint (ucast (drop_bit 56
              (((v2 + drop_bit 4 v2) AND 0xF0F0F0F0F0F0F0F) * 0x101010101010101)) :: 32 word)))"

text \<open>
  The four overloads of \<^verbatim>\<open>GetHammingDistance\<close>. An \<^verbatim>\<open>int64_t\<close> is a 64-bit word read in
  two's complement (\<open>sint\<close>); \<^verbatim>\<open>static_cast<uint64_t>\<close> keeps its bits.
\<close>

definition GetHammingDistance_u64 :: "bool \<Rightarrow> 64 word \<Rightarrow> int" where
  "GetHammingDistance_u64 popcnt v = GetHammingDistanceCore popcnt v"

definition GetHammingDistance_i64 :: "bool \<Rightarrow> 64 word \<Rightarrow> int" where
  "GetHammingDistance_i64 popcnt v = GetHammingDistanceCore popcnt (ucast v)"

definition GetHammingDistance_u64_u64 :: "bool \<Rightarrow> 64 word \<Rightarrow> 64 word \<Rightarrow> int" where
  "GetHammingDistance_u64_u64 popcnt x y = GetHammingDistance_u64 popcnt (x XOR y)"

definition GetHammingDistance_i64_i64 :: "bool \<Rightarrow> 64 word \<Rightarrow> 64 word \<Rightarrow> int" where
  "GetHammingDistance_i64_i64 popcnt x y = GetHammingDistance_u64 popcnt (ucast (x XOR y))"

subsection \<open>Exact arithmetic\<close>

text \<open>
  The arithmetic of the real numbers, with no rounding. It is the arithmetic in which the
  specification's formulas are meant, and the one the examples below are evaluated in.
\<close>

definition exact_arith :: "real float_ops" where
  "exact_arith =
     \<lparr>f_of_int = of_int, f_add = (+), f_sub = (-), f_mul = (*), f_div = (/),
      f_less = (<), f_eq = (=), f_sqrt = sqrt\<rparr>"

subsection \<open>IEEE 754 binary32, rounding to nearest, ties to even\<close>

text \<open>
  The arithmetic of \<^verbatim>\<open>float\<close> on the targets of the library. Every finite float is an
  integer multiple of \<open>2\<^sup>-\<^sup>1\<^sup>4\<^sup>9\<close>, the least positive one: \<open>Finite m\<close> is the float of value
  \<open>m * 2\<^sup>-\<^sup>1\<^sup>4\<^sup>9\<close>, so that \<^verbatim>\<open>1.0f\<close> is \<open>Finite (2\<^sup>1\<^sup>4\<^sup>9)\<close>. An operation on finite floats is the
  exact operation followed by one rounding. The sign of zero is not represented (both
  zeros are \<open>Finite 0\<close>): the kernel never divides by a negative zero, and \<^verbatim>\<open>==\<close> and \<^verbatim>\<open><\<close>
  do not tell the zeros apart.
\<close>

datatype single = Finite int | PInf | NInf | NaN

text \<open>The number of binary digits of a positive integer.\<close>

function bits :: "int \<Rightarrow> int" where
  "bits k = (if k \<le> 0 then 0 else 1 + bits (k div 2))"
  by pat_completeness auto
termination
  by (relation "measure nat") auto

declare bits.simps [simp del]

text \<open>
  \<open>round_to_even a e\<close> is the integer nearest to \<open>a / e\<close>, the even one of the two when
  \<open>a / e\<close> lies half way. \<open>round_units n d\<close> rounds \<open>n / d\<close> units to a float: to an integer
  below \<open>2\<^sup>2\<^sup>4\<close> units (the subnormal numbers and the first binade), to 24 significant
  bits above, and to an infinity from \<open>2\<^sup>1\<^sup>2\<^sup>8\<close>, that is \<open>2\<^sup>2\<^sup>7\<^sup>7\<close> units, on.
\<close>

definition round_to_even :: "int \<Rightarrow> int \<Rightarrow> int" where
  "round_to_even a e =
     (let q = a div e; r = a mod e
      in if 2 * r < e then q else if e < 2 * r then q + 1 else if even q then q else q + 1)"

definition round_units :: "int \<Rightarrow> int \<Rightarrow> single" where
  "round_units n d =
     (let s = nat (bits (\<bar>n\<bar> div d) - 24);
          m = round_to_even \<bar>n\<bar> (d * 2 ^ s) * 2 ^ s
      in if 2 ^ 277 \<le> m then (if 0 < n then PInf else NInf) else Finite (sgn n * m))"

text \<open>The conversion of an \<^verbatim>\<open>int\<close>, and the operations of the type.\<close>

definition single_of_int :: "int \<Rightarrow> single" where
  "single_of_int n = round_units (n * 2 ^ 149) 1"

fun single_neg :: "single \<Rightarrow> single" where
  "single_neg (Finite a) = Finite (- a)"
| "single_neg PInf = NInf"
| "single_neg NInf = PInf"
| "single_neg NaN = NaN"

fun single_add :: "single \<Rightarrow> single \<Rightarrow> single" where
  "single_add (Finite a) (Finite b) = round_units (a + b) 1"
| "single_add NaN _ = NaN"
| "single_add _ NaN = NaN"
| "single_add PInf NInf = NaN"
| "single_add NInf PInf = NaN"
| "single_add PInf _ = PInf"
| "single_add _ PInf = PInf"
| "single_add NInf _ = NInf"
| "single_add _ NInf = NInf"

definition single_sub :: "single \<Rightarrow> single \<Rightarrow> single" where
  "single_sub a b = single_add a (single_neg b)"

fun single_mul :: "single \<Rightarrow> single \<Rightarrow> single" where
  "single_mul (Finite a) (Finite b) = round_units (a * b) (2 ^ 149)"
| "single_mul NaN _ = NaN"
| "single_mul _ NaN = NaN"
| "single_mul (Finite a) PInf = (if a = 0 then NaN else if 0 < a then PInf else NInf)"
| "single_mul (Finite a) NInf = (if a = 0 then NaN else if 0 < a then NInf else PInf)"
| "single_mul PInf (Finite b) = (if b = 0 then NaN else if 0 < b then PInf else NInf)"
| "single_mul NInf (Finite b) = (if b = 0 then NaN else if 0 < b then NInf else PInf)"
| "single_mul PInf PInf = PInf"
| "single_mul PInf NInf = NInf"
| "single_mul NInf PInf = NInf"
| "single_mul NInf NInf = PInf"

fun single_div :: "single \<Rightarrow> single \<Rightarrow> single" where
  "single_div (Finite a) (Finite b) =
     (if b = 0 then (if a = 0 then NaN else if 0 < a then PInf else NInf)
      else round_units (a * 2 ^ 149 * sgn b) \<bar>b\<bar>)"
| "single_div NaN _ = NaN"
| "single_div _ NaN = NaN"
| "single_div (Finite a) PInf = Finite 0"
| "single_div (Finite a) NInf = Finite 0"
| "single_div PInf (Finite b) = (if b < 0 then NInf else PInf)"
| "single_div NInf (Finite b) = (if b < 0 then PInf else NInf)"
| "single_div PInf PInf = NaN"
| "single_div PInf NInf = NaN"
| "single_div NInf PInf = NaN"
| "single_div NInf NInf = NaN"

fun single_less :: "single \<Rightarrow> single \<Rightarrow> bool" where
  "single_less (Finite a) (Finite b) = (a < b)"
| "single_less (Finite a) PInf = True"
| "single_less NInf (Finite b) = True"
| "single_less NInf PInf = True"
| "single_less _ _ = False"

fun single_eq :: "single \<Rightarrow> single \<Rightarrow> bool" where
  "single_eq (Finite a) (Finite b) = (a = b)"
| "single_eq PInf PInf = True"
| "single_eq NInf NInf = True"
| "single_eq _ _ = False"

text \<open>
  The square root: \<open>isqrt n\<close> is the integer part of the root of \<open>n\<close>. The root of \<open>a\<close> units
  is \<open>\<surd>(a * 2\<^sup>1\<^sup>4\<^sup>9)\<close> units; its integer part \<open>t\<close> has more than 70 binary digits, so the
  float nearest to the root is the float nearest to \<open>t\<close> when the root is \<open>t\<close>, and to \<open>t + 1/2\<close>
  otherwise.
\<close>

definition isqrt_step :: "int \<Rightarrow> int \<Rightarrow> int" where
  "isqrt_step n r = (if (r + 1) * (r + 1) \<le> n then r + 1 else r)"

function isqrt :: "int \<Rightarrow> int" where
  "isqrt n = (if n \<le> 0 then 0 else isqrt_step n (2 * isqrt (n div 4)))"
  by pat_completeness auto
termination
  by (relation "measure nat") auto

declare isqrt.simps [simp del]

definition sqrt_round :: "int \<Rightarrow> int \<Rightarrow> single" where
  "sqrt_round n t = round_units (2 * t + (if t * t = n then 0 else 1)) 2"

definition sqrt_units :: "int \<Rightarrow> single" where
  "sqrt_units n = sqrt_round n (isqrt n)"

fun single_sqrt :: "single \<Rightarrow> single" where
  "single_sqrt (Finite a) = (if a < 0 then NaN else sqrt_units (a * 2 ^ 149))"
| "single_sqrt PInf = PInf"
| "single_sqrt NInf = NaN"
| "single_sqrt NaN = NaN"

definition ieee_single :: "single float_ops" where
  "ieee_single =
     \<lparr>f_of_int = single_of_int, f_add = single_add, f_sub = single_sub, f_mul = single_mul,
      f_div = single_div, f_less = single_less, f_eq = single_eq, f_sqrt = single_sqrt\<rparr>"

subsection \<open>The accumulators as the specification words them\<close>

text \<open>
  The specification defines the three accumulators as sums over \<open>i \<in> [0, n)\<close> in which
  \<open>y\<close> is read at \<open>(i + d) mod n\<close>. The sum of a sequence of floats is taken in the
  order of the index, starting from zero.
\<close>

definition f_sum :: "'f float_ops \<Rightarrow> (nat \<Rightarrow> 'f) \<Rightarrow> nat \<Rightarrow> 'f" where
  "f_sum ops t n = foldl (\<lambda>s i. f_add ops s (t i)) (f_zero ops) [0..<n]"

definition num_mod :: "'f float_ops \<Rightarrow> 'f list \<Rightarrow> 'f list \<Rightarrow> nat \<Rightarrow> 'f" where
  "num_mod ops x y d =
     f_sum ops (\<lambda>i. f_mul ops (x ! i) (y ! ((i + d) mod length x))) (length x)"

definition denx_mod :: "'f float_ops \<Rightarrow> 'f list \<Rightarrow> 'f" where
  "denx_mod ops x = f_sum ops (\<lambda>i. f_mul ops (x ! i) (x ! i)) (length x)"

definition deny_mod :: "'f float_ops \<Rightarrow> 'f list \<Rightarrow> 'f list \<Rightarrow> nat \<Rightarrow> 'f" where
  "deny_mod ops x y d =
     f_sum ops (\<lambda>i. f_mul ops (y ! ((i + d) mod length x)) (y ! ((i + d) mod length x)))
       (length x)"

text \<open>
  The same for the whole call: the sum of the first \<open>n\<close> bytes, the vector of the bytes
  minus their mean, and the greatest ratio over the offsets.
\<close>

definition byte_sum :: "8 word list \<Rightarrow> nat \<Rightarrow> 32 word" where
  "byte_sum x n = foldl (\<lambda>s k. s + ucast (x ! k)) 0 [0..<n]"

definition centered :: "'f float_ops \<Rightarrow> 8 word list \<Rightarrow> nat \<Rightarrow> 'f list" where
  "centered ops x n =
     map (\<lambda>k. f_sub ops (f_of_int ops (uint (x ! k))) (mean_of ops (byte_sum x n) (int n))) [0..<n]"

definition best_ratio :: "'f float_ops \<Rightarrow> 'f list \<Rightarrow> 'f list \<Rightarrow> 'f" where
  "best_ratio ops x y =
     foldl (\<lambda>m d. f_max ops m
        (offset_ratio ops (num_mod ops x y d, denx_mod ops x, deny_mod ops x y d)))
       (f_zero ops) [0..<length x]"

section \<open>The offset kernel: the two passes and the cyclic sums\<close>

text \<open>The state after the steps \<open>lo, \<dots>, hi - 1\<close> of a pass that reads \<open>y\<close> at \<open>g i\<close>.\<close>

definition pass_state ::
  "'f float_ops \<Rightarrow> 'f list \<Rightarrow> 'f list \<Rightarrow> (nat \<Rightarrow> nat) \<Rightarrow> 'f \<times> 'f \<times> 'f \<Rightarrow> nat list
     \<Rightarrow> 'f \<times> 'f \<times> 'f" where
  "pass_state ops x y g s ks =
     foldl (\<lambda>(num, denx, deny) i.
        (f_add ops num (f_mul ops (x ! i) (y ! g i)),
         f_add ops denx (f_mul ops (x ! i) (x ! i)),
         f_add ops deny (f_mul ops (y ! g i) (y ! g i)))) s ks"

lemma pass_state_Nil [simp]: "pass_state ops x y g s [] = s"
  by (simp add: pass_state_def)

lemma pass_state_Cons:
  "pass_state ops x y g (num, denx, deny) (i # ks) =
     pass_state ops x y g
       (f_add ops num (f_mul ops (x ! i) (y ! g i)),
        f_add ops denx (f_mul ops (x ! i) (x ! i)),
        f_add ops deny (f_mul ops (y ! g i) (y ! g i))) ks"
  by (simp add: pass_state_def)

lemma pass_state_append:
  "pass_state ops x y g s (ks @ ls) = pass_state ops x y g (pass_state ops x y g s ks) ls"
  by (simp add: pass_state_def)

lemma pass_state_cong:
  "(\<And>i. i \<in> set ks \<Longrightarrow> g i = h i) \<Longrightarrow> pass_state ops x y g s ks = pass_state ops x y h s ks"
proof (induction ks arbitrary: s)
  case Nil
  show ?case by simp
next
  case (Cons k ks)
  obtain num denx deny where s: "s = (num, denx, deny)"
    by (cases s) auto
  from Cons.prems have gk: "g k = h k"
    by simp
  from Cons.prems have "\<And>i. i \<in> set ks \<Longrightarrow> g i = h i"
    by simp
  then show ?case
    unfolding s pass_state_Cons gk by (rule Cons.IH)
qed

text \<open>An inner loop whose accesses are all in range computes \<open>pass_state\<close>.\<close>

lemma offset_inner_stop: "\<not> i < th \<Longrightarrow> offset_inner ops x y yo th i s = Inr s"
  by (cases s) (simp add: offset_inner.simps)

lemma upt_int_step:
  assumes "0 \<le> i" and "i < th"
  shows "[nat i..<nat th] = nat i # [nat (i + 1)..<nat th]"
proof -
  from assms have "nat i < nat th"
    by linarith
  then have "[nat i..<nat th] = nat i # [Suc (nat i)..<nat th]"
    by (rule upt_conv_Cons)
  moreover from assms have "Suc (nat i) = nat (i + 1)"
    by linarith
  ultimately show ?thesis
    by simp
qed

lemma offset_inner_pass_state:
  assumes "0 \<le> i" and "th \<le> int (length x)"
    and "0 \<le> i + yo" and "th + yo \<le> int (length y)"
  shows "offset_inner ops x y yo th i s =
    Inr (pass_state ops x y (\<lambda>k. nat (int k + yo)) s [nat i..<nat th])"
  using assms
proof (induction "nat (th - i)" arbitrary: i s)
  case 0
  then have "\<not> i < th" by simp
  moreover from this have "[nat i..<nat th] = []"
    by simp
  ultimately show ?case
    by (simp add: offset_inner_stop)
next
  case (Suc m)
  obtain num denx deny where s: "s = (num, denx, deny)"
    by (cases s) auto
  from Suc.hyps(2) have lt: "i < th"
    by linarith
  from lt Suc.prems have ax: "vec_at x i = Inr (x ! nat i)"
    by (simp add: vec_at_def)
  from lt Suc.prems have ay: "vec_at y (i + yo) = Inr (y ! nat (i + yo))"
    by (simp add: vec_at_def)
  from lt Suc.prems have range: "[nat i..<nat th] = nat i # [nat (i + 1)..<nat th]"
    by (intro upt_int_step)
  from Suc.prems have idx: "nat (int (nat i) + yo) = nat (i + yo)"
    by simp
  from Suc.hyps(2) have m: "m = nat (th - (i + 1))"
    by linarith
  have step: "offset_inner ops x y yo th i (num, denx, deny) =
      offset_inner ops x y yo th (i + 1)
        (f_add ops num (f_mul ops (x ! nat i) (y ! nat (i + yo))),
         f_add ops denx (f_mul ops (x ! nat i) (x ! nat i)),
         f_add ops deny (f_mul ops (y ! nat (i + yo)) (y ! nat (i + yo))))"
    by (subst offset_inner.simps) (simp add: lt ax ay)
  have rest: "offset_inner ops x y yo th (i + 1) t =
      Inr (pass_state ops x y (\<lambda>k. nat (int k + yo)) t [nat (i + 1)..<nat th])" for t
    using Suc.prems lt by (intro Suc.hyps(1) [OF m]) simp_all
  show ?case
    unfolding s step rest range using Suc.prems(1) by (simp add: pass_state_Cons idx)
qed

lemma offset_outer_stop: "\<not> j < 2 \<Longrightarrow> offset_outer ops x y offset j s = Inr s"
  by (subst offset_outer.simps) simp

text \<open>The two passes, for an offset within the vector.\<close>

lemma offset_outer_two_passes:
  assumes len: "length y = length x" and d: "d \<le> length x"
  shows "offset_outer ops x y (int d) 0 s =
    Inr (pass_state ops x y (\<lambda>i. i + d - length x)
          (pass_state ops x y (\<lambda>i. i + d) s [0..<length x - d])
          [length x - d..<length x])"
proof -
  let ?n = "int (length x)"
  let ?s1 = "pass_state ops x y (\<lambda>k. nat (int k + int d)) s [nat 0..<nat (?n - int d)]"
  let ?s2 = "pass_state ops x y (\<lambda>k. nat (int k + (int d - 1 * ?n))) ?s1
      [nat (?n - int d)..<nat ?n]"
  have first: "offset_inner ops x y (int d) (?n - int d) 0 s = Inr ?s1"
    using len d by (intro offset_inner_pass_state) simp_all
  have second: "offset_inner ops x y (int d - 1 * ?n) ?n (?n - int d) ?s1 = Inr ?s2"
    using len d by (intro offset_inner_pass_state) simp_all
  have "offset_outer ops x y (int d) 0 s = offset_outer ops x y (int d) 1 ?s1"
    by (subst offset_outer.simps) (simp add: first)
  also have "\<dots> = offset_outer ops x y (int d) 2 ?s2"
    using second by (subst offset_outer.simps) simp
  also have "\<dots> = Inr ?s2"
    by (simp add: offset_outer_stop)
  finally have run: "offset_outer ops x y (int d) 0 s = Inr ?s2" .
  have r1: "[nat 0..<nat (?n - int d)] = [0..<length x - d]"
    using d by (simp add: nat_diff_distrib')
  have r2: "[nat (?n - int d)..<nat ?n] = [length x - d..<length x]"
    using d by (simp add: nat_diff_distrib')
  have g1: "pass_state ops x y (\<lambda>k. nat (int k + int d)) s [0..<length x - d] =
      pass_state ops x y (\<lambda>i. i + d) s [0..<length x - d]"
    by (rule pass_state_cong) (simp add: nat_int_add)
  have g2: "pass_state ops x y (\<lambda>k. nat (int k + (int d - 1 * ?n))) t [length x - d..<length x] =
      pass_state ops x y (\<lambda>i. i + d - length x) t [length x - d..<length x]" for t
    by (rule pass_state_cong) (simp add: nat_diff_distrib' nat_add_distrib)
  show ?thesis
    unfolding run r1 r2 g1 g2 ..
qed

text \<open>The same state, reading \<open>y\<close> at \<open>(i + d) mod n\<close> in one pass over \<open>[0, n)\<close>.\<close>

lemma two_passes_cyclic:
  assumes d: "d < length x"
  shows "pass_state ops x y (\<lambda>i. i + d - length x)
          (pass_state ops x y (\<lambda>i. i + d) s [0..<length x - d])
          [length x - d..<length x] =
    pass_state ops x y (\<lambda>i. (i + d) mod length x) s [0..<length x]"
proof -
  have p1: "pass_state ops x y (\<lambda>i. i + d) s [0..<length x - d] =
      pass_state ops x y (\<lambda>i. (i + d) mod length x) s [0..<length x - d]"
    by (rule pass_state_cong) simp
  have p2: "pass_state ops x y (\<lambda>i. i + d - length x) t [length x - d..<length x] =
      pass_state ops x y (\<lambda>i. (i + d) mod length x) t [length x - d..<length x]" for t
  proof (rule pass_state_cong)
    fix i
    assume "i \<in> set [length x - d..<length x]"
    then have "length x \<le> i + d" and "i + d - length x < length x"
      using d by auto
    then show "i + d - length x = (i + d) mod length x"
      by (simp add: le_mod_geq)
  qed
  have "[0..<length x - d + d] = [0..<length x - d] @ [length x - d..<length x - d + d]"
    by (rule upt_add_eq_append) simp
  with d have split: "[0..<length x] = [0..<length x - d] @ [length x - d..<length x]"
    by simp
  have "pass_state ops x y (\<lambda>i. (i + d) mod length x) s [0..<length x] =
      pass_state ops x y (\<lambda>i. (i + d) mod length x) s
        ([0..<length x - d] @ [length x - d..<length x])"
    using split by simp
  then show ?thesis
    unfolding p1 p2 by (simp only: pass_state_append)
qed

lemma pass_state_sums:
  "pass_state ops x y g (a, b, c) ks =
    (foldl (\<lambda>s i. f_add ops s (f_mul ops (x ! i) (y ! g i))) a ks,
     foldl (\<lambda>s i. f_add ops s (f_mul ops (x ! i) (x ! i))) b ks,
     foldl (\<lambda>s i. f_add ops s (f_mul ops (y ! g i) (y ! g i))) c ks)"
  by (induction ks arbitrary: a b c) (simp_all add: pass_state_Cons)

lemma offset_outer_cyclic_sums:
  assumes len: "length y = length x" and d: "d < length x"
  shows "offset_outer ops x y (int d) 0 (f_zero ops, f_zero ops, f_zero ops) =
    Inr (num_mod ops x y d, denx_mod ops x, deny_mod ops x y d)"
proof -
  from d have "d \<le> length x"
    by simp
  then have "offset_outer ops x y (int d) 0 (f_zero ops, f_zero ops, f_zero ops) =
      Inr (pass_state ops x y (\<lambda>i. (i + d) mod length x)
        (f_zero ops, f_zero ops, f_zero ops) [0..<length x])"
    by (simp only: offset_outer_two_passes [OF len] two_passes_cyclic [OF d])
  then show ?thesis
    by (simp only: pass_state_sums num_mod_def denx_mod_def deny_mod_def f_sum_def)
qed

lemma GetCrossCorrelationForOffset_cyclic:
  assumes "length y = length x" and "d < length x"
  shows "GetCrossCorrelationForOffset ops x y (int d) =
    Inr (offset_ratio ops (num_mod ops x y d, denx_mod ops x, deny_mod ops x y d))"
  using assms by (simp add: GetCrossCorrelationForOffset_def offset_outer_cyclic_sums)

lemma f_sum_exact: "f_sum exact_arith t n = (\<Sum>i<n. t i)"
proof -
  have "foldl (\<lambda>s i. s + t i) a [0..<n] = a + (\<Sum>i<n. t i)" for a
    by (induction n) (simp_all add: add.assoc)
  then show ?thesis
    by (simp add: f_sum_def f_zero_def exact_arith_def)
qed

lemma exact_arith_simps [simp]:
  "f_of_int exact_arith = of_int" "f_add exact_arith = (+)" "f_sub exact_arith = (-)"
  "f_mul exact_arith = (*)" "f_div exact_arith = (/)" "f_less exact_arith = (<)"
  "f_eq exact_arith = (=)" "f_sqrt exact_arith = sqrt" "f_zero exact_arith = 0"
  by (simp_all add: exact_arith_def f_zero_def)

section \<open>Claims about the offset kernel\<close>

text \<open>
  Claim C8. For float vectors \<open>x\<close>, \<open>y\<close> of equal length \<open>n\<close> and an offset \<open>d < n\<close>, the two
  passes of the kernel (the first over \<open>i \<in> [0, n - d)\<close> reading \<open>y[i + d]\<close>, the second
  over \<open>i \<in> [n - d, n)\<close> reading \<open>y[i + d - n]\<close>) leave in \<open>(num, denx, deny)\<close> exactly the
  three sums that read \<open>y[(i + d) mod n]\<close> for \<open>i = 0, \<dots>, n - 1\<close>. The arithmetic is
  arbitrary (no law of addition or multiplication is assumed), so the additions happen
  on the same elements in the same order.
\<close>

theorem two_passes_are_the_cyclic_sums:
  assumes "length y = length x" and "d < length x"
  shows "offset_outer ops x y (int d) 0 (f_zero ops, f_zero ops, f_zero ops) =
      Inr (pass_state ops x y (\<lambda>i. i + d - length x)
            (pass_state ops x y (\<lambda>i. i + d) (f_zero ops, f_zero ops, f_zero ops)
               [0..<length x - d])
            [length x - d..<length x])
    \<and> offset_outer ops x y (int d) 0 (f_zero ops, f_zero ops, f_zero ops) =
      Inr (num_mod ops x y d, denx_mod ops x, deny_mod ops x y d)"
proof (intro conjI)
  from assms(2) have "d \<le> length x"
    by simp
  with assms(1) show "offset_outer ops x y (int d) 0 (f_zero ops, f_zero ops, f_zero ops) =
      Inr (pass_state ops x y (\<lambda>i. i + d - length x)
            (pass_state ops x y (\<lambda>i. i + d) (f_zero ops, f_zero ops, f_zero ops)
               [0..<length x - d])
            [length x - d..<length x])"
    by (rule offset_outer_two_passes)
  from assms show "offset_outer ops x y (int d) 0 (f_zero ops, f_zero ops, f_zero ops) =
      Inr (num_mod ops x y d, denx_mod ops x, deny_mod ops x y d)"
    by (rule offset_outer_cyclic_sums)
qed

theorem two_passes_are_the_cyclic_sums_witness:
  "length [4, 5, 6 :: real] = length [1, 2, 3 :: real] \<and> (1 :: nat) < length [1, 2, 3 :: real]
   \<and> offset_outer exact_arith [1, 2, 3] [4, 5, 6] (int 1) 0 (0, 0, 0) = Inr (29, 14, 77)"
  using two_passes_are_the_cyclic_sums [of "[4, 5, 6 :: real]" "[1, 2, 3]" 1 exact_arith,
      THEN conjunct2]
  by (simp add: num_mod_def denx_mod_def deny_mod_def f_sum_exact lessThan_nat_numeral
      lessThan_Suc)

text \<open>
  Claim C10. For float vectors of equal length \<open>n\<close> and an offset \<open>d < n\<close>, no access of
  the two inner loops leaves the vectors: every read \<open>x[i]\<close> and \<open>y[i + yo]\<close> is checked by
  \<open>vec_at\<close>, which fails with \<open>Out_Of_Range\<close> outside \<open>[0, n)\<close>, and the kernel returns a
  value.
\<close>

theorem offset_accesses_in_bounds:
  assumes "length y = length x" and "d < length x"
  shows "\<exists>v. GetCrossCorrelationForOffset ops x y (int d) = Inr v"
  using assms by (simp add: GetCrossCorrelationForOffset_cyclic)

theorem offset_accesses_in_bounds_witness:
  "length [4, 5, 6 :: real] = length [1, 2, 3 :: real] \<and> (1 :: nat) < length [1, 2, 3 :: real]
   \<and> (\<exists>v. GetCrossCorrelationForOffset exact_arith [1, 2, 3] [4, 5, 6] (int 1) = Inr v)"
  using offset_accesses_in_bounds [of "[4, 5, 6 :: real]" "[1, 2, 3]" 1 exact_arith]
  by simp

text \<open>
  Claim C1. For float vectors of equal length \<open>n\<close> and an offset \<open>d < n\<close>, the kernel
  returns 0 if \<open>num < 0\<close> or \<open>denx == 0\<close> or \<open>deny == 0\<close>, and \<open>(num * num) / (denx * deny)\<close>
  otherwise, where \<open>num\<close>, \<open>denx\<close> and \<open>deny\<close> are the sums over \<open>i \<in> [0, n)\<close> of
  \<open>x[i] * y[(i + d) mod n]\<close>, of \<open>x[i]\<^sup>2\<close> and of \<open>y[(i + d) mod n]\<^sup>2\<close>.
\<close>

theorem offset_kernel_value:
  assumes "length y = length x" and "d < length x"
  shows "GetCrossCorrelationForOffset ops x y (int d) =
    Inr (if f_less ops (num_mod ops x y d) (f_zero ops)
            \<or> f_eq ops (denx_mod ops x) (f_zero ops)
            \<or> f_eq ops (deny_mod ops x y d) (f_zero ops)
         then f_zero ops
         else f_div ops (f_mul ops (num_mod ops x y d) (num_mod ops x y d))
                (f_mul ops (denx_mod ops x) (deny_mod ops x y d)))"
  using assms by (simp add: GetCrossCorrelationForOffset_cyclic offset_ratio_def)

theorem offset_kernel_value_witness:
  "length [4, 5, 6 :: real] = length [1, 2, 3 :: real] \<and> (1 :: nat) < length [1, 2, 3 :: real]
   \<and> GetCrossCorrelationForOffset exact_arith [1, 2, 3] [4, 5, 6] (int 1) = Inr (841 / 1078)"
  using offset_kernel_value [of "[4, 5, 6 :: real]" "[1, 2, 3]" 1 exact_arith]
  by (simp add: num_mod_def denx_mod_def deny_mod_def f_sum_exact lessThan_nat_numeral
      lessThan_Suc)

section \<open>The Hamming distance: the software path counts the set bits\<close>

text \<open>
  The software path works on all eight bytes of the word at once. Its proof follows the
  bytes: on the natural number \<open>unat v\<close>, each of the first three steps acts on every byte
  separately (\<open>bytemap\<close>), a byte alone is checked on its 256 values, and the final
  multiplication adds the eight bytes up into the top byte (\<open>psum\<close>, \<open>bsum\<close>).
\<close>

lemma scale_split:
  fixes b c m :: nat
  shows "c * b = c * (b mod m) + c * m * (b div m)"
proof -
  have "c * b = c * (m * (b div m) + b mod m)"
    by simp
  also have "\<dots> = c * (b mod m) + c * m * (b div m)"
    by (simp only: distrib_left mult.assoc add.commute)
  finally show ?thesis .
qed

lemma shift_split:
  fixes a b :: nat
  shows "(a + 256 * b) div 2 = (a div 2 + 128 * (b mod 2)) + 256 * (b div 2)"
proof -
  have "(a + 256 * b) div 2 = a div 2 + 128 * b"
    by simp
  also have "128 * b = 128 * (b mod 2) + 128 * 2 * (b div 2)"
    by (rule scale_split)
  finally show ?thesis
    by simp
qed

lemma shift_split4:
  fixes a b :: nat
  shows "(a + 256 * b) div 4 = (a div 4 + 64 * (b mod 4)) + 256 * (b div 4)"
proof -
  have "(a + 256 * b) div 4 = a div 4 + 64 * b"
    by simp
  also have "64 * b = 64 * (b mod 4) + 64 * 4 * (b div 4)"
    by (rule scale_split)
  finally show ?thesis
    by simp
qed

lemma shift_split16:
  fixes a b :: nat
  shows "(a + 256 * b) + (a + 256 * b) div 16 =
      (a + a div 16 + 16 * (b mod 16)) + 256 * (b + b div 16)"
proof -
  have "(a + 256 * b) div 16 = a div 16 + 16 * b"
    by simp
  also have "16 * b = 16 * (b mod 16) + 16 * 16 * (b div 16)"
    by (rule scale_split)
  finally show ?thesis
    by simp
qed


fun rep_byte :: "nat \<Rightarrow> nat \<Rightarrow> nat" where
  "rep_byte m 0 = 0"
| "rep_byte m (Suc k) = m + 256 * rep_byte m k"

fun bytemap :: "(nat \<Rightarrow> nat) \<Rightarrow> nat \<Rightarrow> nat \<Rightarrow> nat" where
  "bytemap f 0 V = 0"
| "bytemap f (Suc k) V = f (V mod 256) + 256 * bytemap f k (V div 256)"

definition st1 :: "nat \<Rightarrow> nat \<Rightarrow> nat" where "st1 M V = V - ((V div 2) AND M)"
definition st2 :: "nat \<Rightarrow> nat \<Rightarrow> nat" where "st2 M V = (V AND M) + ((V div 4) AND M)"
definition st3 :: "nat \<Rightarrow> nat \<Rightarrow> nat" where "st3 M V = (V + V div 16) AND M"

lemma and_nat_le: "(a :: nat) AND b \<le> a"
proof -
  have "int a AND int b \<le> int a"
    by (rule AND_upper1) simp
  then have "int (a AND b) \<le> int a"
    by (simp add: of_nat_and_eq)
  then show ?thesis
    by simp
qed

lemma and_split:
  fixes a b c d :: nat
  assumes a: "a < 2 ^ n" and c: "c < 2 ^ n"
  shows "(a + 2 ^ n * b) AND (c + 2 ^ n * d) = (a AND c) + 2 ^ n * (b AND d)"
proof -
  let ?X = "a + 2 ^ n * b" and ?Y = "c + 2 ^ n * d"
  from a have tx: "take_bit n ?X = a" and dx: "drop_bit n ?X = b"
    by (simp_all add: take_bit_eq_mod drop_bit_eq_div)
  from c have ty: "take_bit n ?Y = c" and dy: "drop_bit n ?Y = d"
    by (simp_all add: take_bit_eq_mod drop_bit_eq_div)
  have "?X AND ?Y = push_bit n (drop_bit n (?X AND ?Y)) + take_bit n (?X AND ?Y)"
    by (simp only: bits_ident)
  also have "\<dots> = push_bit n (b AND d) + (a AND c)"
    by (simp only: drop_bit_and take_bit_and tx dx ty dy)
  finally show ?thesis
    by (simp add: push_bit_eq_mult)
qed

lemma and_split_byte:
  fixes a b c d :: nat
  assumes "a < 256" and "c < 256"
  shows "(a + 256 * b) AND (c + 256 * d) = (a AND c) + 256 * (b AND d)"
  using and_split [of a 8 c b d] assms by simp

lemma and_drop_top:
  fixes a t m :: nat
  assumes "a < 2 ^ n" and "m < 2 ^ n"
  shows "(a + 2 ^ n * t) AND m = a AND m"
  using and_split [of a n m t 0] assms by simp


lemma st1_split:
  assumes a: "a < 256"
  shows "st1 (0x55 + 256 * M) (a + 256 * b) = st1 0x55 a + 256 * st1 M b"
proof -
  from a have "a div 2 < 2 ^ 7"
    by simp
  then have top: "(a div 2 + 2 ^ 7 * (b mod 2)) AND 0x55 = a div 2 AND 0x55"
    by (rule and_drop_top) simp
  from a have "a div 2 < 128"
    by simp
  moreover have "b mod 2 < 2"
    by simp
  ultimately have low: "a div 2 + 128 * (b mod 2) < 256"
    by linarith
  have "((a + 256 * b) div 2) AND (0x55 + 256 * M) =
      ((a div 2 + 128 * (b mod 2)) + 256 * (b div 2)) AND (0x55 + 256 * M)"
    by (simp only: shift_split)
  also have "\<dots> = ((a div 2 + 128 * (b mod 2)) AND 0x55) + 256 * (b div 2 AND M)"
    using low by (rule and_split_byte) simp
  also have "\<dots> = (a div 2 AND 0x55) + 256 * (b div 2 AND M)"
    using top by simp
  finally have masked: "((a + 256 * b) div 2) AND (0x55 + 256 * M) =
      (a div 2 AND 0x55) + 256 * (b div 2 AND M)" .
  have "a div 2 AND 0x55 \<le> a div 2" and "b div 2 AND M \<le> b div 2"
    by (rule and_nat_le)+
  then have "a div 2 AND 0x55 \<le> a" and "b div 2 AND M \<le> b"
    by linarith+
  then show ?thesis
    unfolding st1_def masked by (simp add: algebra_simps)
qed

lemma st2_split:
  assumes a: "a < 256"
  shows "st2 (0x33 + 256 * M) (a + 256 * b) = st2 0x33 a + 256 * st2 M b"
proof -
  from a have "a div 4 < 2 ^ 6"
    by simp
  then have top: "(a div 4 + 2 ^ 6 * (b mod 4)) AND 0x33 = a div 4 AND 0x33"
    by (rule and_drop_top) simp
  from a have "a div 4 < 64"
    by simp
  moreover have "b mod 4 < 4"
    by simp
  ultimately have low: "a div 4 + 64 * (b mod 4) < 256"
    by linarith
  have "((a + 256 * b) div 4) AND (0x33 + 256 * M) =
      ((a div 4 + 64 * (b mod 4)) + 256 * (b div 4)) AND (0x33 + 256 * M)"
    by (simp only: shift_split4)
  also have "\<dots> = ((a div 4 + 64 * (b mod 4)) AND 0x33) + 256 * (b div 4 AND M)"
    using low by (rule and_split_byte) simp
  also have "\<dots> = (a div 4 AND 0x33) + 256 * (b div 4 AND M)"
    using top by simp
  finally have masked: "((a + 256 * b) div 4) AND (0x33 + 256 * M) =
      (a div 4 AND 0x33) + 256 * (b div 4 AND M)" .
  have plain: "(a + 256 * b) AND (0x33 + 256 * M) = (a AND 0x33) + 256 * (b AND M)"
    using a by (rule and_split_byte) simp
  show ?thesis
    unfolding st2_def masked plain by simp
qed

lemma and_15_mod: "(a :: nat) AND 0x0F = a mod 16"
proof -
  have "a AND mask 4 = a mod 2 ^ 4"
    by (simp only: take_bit_eq_mod flip: take_bit_eq_mask)
  then show ?thesis
    by (simp add: mask_eq_exp_minus_1)
qed

lemma st3_split:
  assumes a: "a < 128" and b: "b mod 16 < 8"
  shows "st3 (0x0F + 256 * M) (a + 256 * b) = st3 0x0F a + 256 * st3 M b"
proof -
  from a have "a div 16 < 8"
    by simp
  with a b have low: "a + a div 16 + 16 * (b mod 16) < 256"
    by linarith
  have top: "(a + a div 16 + 16 * (b mod 16)) AND 0x0F = (a + a div 16) AND 0x0F"
    by (simp add: and_15_mod)
  have "((a + 256 * b) + (a + 256 * b) div 16) AND (0x0F + 256 * M) =
      ((a + a div 16 + 16 * (b mod 16)) + 256 * (b + b div 16)) AND (0x0F + 256 * M)"
    by (simp only: shift_split16)
  also have "\<dots> = ((a + a div 16 + 16 * (b mod 16)) AND 0x0F) + 256 * ((b + b div 16) AND M)"
    using low by (rule and_split_byte) simp
  finally show ?thesis
    unfolding st3_def top .
qed


lemma bytemap_id: "V < 256 ^ k \<Longrightarrow> bytemap (\<lambda>a. a) k V = V"
proof (induction k arbitrary: V)
  case 0
  then show ?case by simp
next
  case (Suc k)
  from Suc.prems have "V div 256 < 256 ^ k"
    by (simp add: less_mult_imp_div_less mult.commute)
  then show ?case
    by (simp add: Suc.IH)
qed

lemma st1_bytemap:
  assumes g: "\<And>a. a < 256 \<Longrightarrow> g a < 256"
  shows "st1 (rep_byte 0x55 k) (bytemap g k W) = bytemap (\<lambda>a. st1 0x55 (g a)) k W"
proof (induction k arbitrary: W)
  case 0
  show ?case by (simp add: st1_def)
next
  case (Suc k)
  have "g (W mod 256) < 256"
    by (rule g) simp
  then show ?case
    by (simp add: st1_split Suc.IH)
qed

lemma st2_bytemap:
  assumes g: "\<And>a. a < 256 \<Longrightarrow> g a < 256"
  shows "st2 (rep_byte 0x33 k) (bytemap g k W) = bytemap (\<lambda>a. st2 0x33 (g a)) k W"
proof (induction k arbitrary: W)
  case 0
  show ?case by (simp add: st2_def)
next
  case (Suc k)
  have "g (W mod 256) < 256"
    by (rule g) simp
  then show ?case
    by (simp add: st2_split Suc.IH)
qed

lemma bytemap_mod16:
  assumes g: "\<And>a. a < 256 \<Longrightarrow> g a mod 16 < 8"
  shows "bytemap g k W mod 16 < 8"
proof (cases k)
  case 0
  then show ?thesis by simp
next
  case (Suc j)
  have "(g (W mod 256) + 256 * bytemap g j (W div 256)) mod 16 = g (W mod 256) mod 16"
  proof -
    have "256 * bytemap g j (W div 256) = 16 * (16 * bytemap g j (W div 256))"
      by simp
    then show ?thesis
      by (simp only: mod_mult_self2)
  qed
  moreover have "g (W mod 256) mod 16 < 8"
    by (rule g) simp
  ultimately show ?thesis
    using Suc by simp
qed

lemma st3_bytemap:
  assumes g: "\<And>a. a < 256 \<Longrightarrow> g a < 128" and g16: "\<And>a. a < 256 \<Longrightarrow> g a mod 16 < 8"
  shows "st3 (rep_byte 0x0F k) (bytemap g k W) = bytemap (\<lambda>a. st3 0x0F (g a)) k W"
proof (induction k arbitrary: W)
  case 0
  show ?case by (simp add: st3_def)
next
  case (Suc k)
  have "g (W mod 256) < 128"
    by (rule g) simp
  moreover have "bytemap g k (W div 256) mod 16 < 8"
    using g16 by (rule bytemap_mod16)
  ultimately show ?case
    by (simp add: st3_split Suc.IH)
qed

fun psum :: "nat \<Rightarrow> nat \<Rightarrow> nat \<Rightarrow> nat" where
  "psum 0 acc X = 0"
| "psum (Suc k) acc X = (acc + X mod 256) + 256 * psum k (acc + X mod 256) (X div 256)"

fun bsum :: "nat \<Rightarrow> nat \<Rightarrow> nat" where
  "bsum 0 X = 0"
| "bsum (Suc k) X = X mod 256 + bsum k (X div 256)"

lemma rep_byte_one_Suc: "rep_byte 1 (Suc k) = rep_byte 1 k + 256 ^ k"
  by (induction k) simp_all

lemma mod_scale:
  fixes c U m :: nat
  shows "(c + 256 * U) mod (256 * m) = (c + 256 * (U mod m)) mod (256 * m)"
proof -
  have "256 * (U mod m) = (256 * U) mod (256 * m)"
    by (simp only: mult_mod_right)
  then show ?thesis
    by (simp only: mod_add_right_eq)
qed

lemma psum_bound: "acc + bsum k X < 256 \<Longrightarrow> psum k acc X < 256 ^ k"
proof (induction k arbitrary: acc X)
  case 0
  show ?case by simp
next
  case (Suc k)
  from Suc.prems have "(acc + X mod 256) + bsum k (X div 256) < 256"
    by simp
  then have "psum k (acc + X mod 256) (X div 256) < 256 ^ k"
    by (rule Suc.IH)
  then have "256 * (psum k (acc + X mod 256) (X div 256) + 1) \<le> 256 * 256 ^ k"
    by (simp only: mult_le_cancel1) simp
  moreover from Suc.prems have "acc + X mod 256 < 256"
    by simp
  ultimately show ?case
    by simp
qed

lemma psum_top:
  "acc + bsum (Suc k) X < 256 \<Longrightarrow> psum (Suc k) acc X div 256 ^ k = acc + bsum (Suc k) X"
proof (induction k arbitrary: acc X)
  case 0
  show ?case by simp
next
  case (Suc k)
  define acc' where "acc' = acc + X mod 256"
  from Suc.prems have small: "acc' < 256"
    by (simp add: acc'_def)
  from Suc.prems have "acc' + bsum (Suc k) (X div 256) < 256"
    by (simp add: acc'_def)
  then have IH: "psum (Suc k) acc' (X div 256) div 256 ^ k = acc' + bsum (Suc k) (X div 256)"
    by (rule Suc.IH)
  have "psum (Suc (Suc k)) acc X div 256 ^ Suc k =
      (acc' + 256 * psum (Suc k) acc' (X div 256)) div 256 div 256 ^ k"
    by (simp only: psum.simps(2) [of "Suc k"] acc'_def power_Suc div_mult2_eq)
  also have "(acc' + 256 * psum (Suc k) acc' (X div 256)) div 256 =
      psum (Suc k) acc' (X div 256)"
    using small by (simp del: psum.simps)
  finally show ?case
    using IH by (simp add: acc'_def del: psum.simps)
qed

lemma alg1:
  fixes a b acc H :: nat
  shows "(a + acc) * (1 + 256 * H) + 256 * b * (H + 256 ^ k) =
    ((acc + a) + 256 * ((b + (acc + a)) * H)) + 256 ^ Suc k * b"
  by (simp add: algebra_simps)

lemma mult_rep_byte_step:
  fixes X acc :: nat
  shows "(X + acc) * rep_byte 1 (Suc k) =
    ((acc + X mod 256) + 256 * ((X div 256 + (acc + X mod 256)) * rep_byte 1 k))
      + 256 ^ Suc k * (X div 256)"
proof -
  define a where "a = X mod 256"
  define b where "b = X div 256"
  define H where "H = rep_byte 1 k"
  have X: "X = a + 256 * b"
    by (simp add: a_def b_def)
  have H1: "rep_byte 1 (Suc k) = 1 + 256 * H"
    by (simp add: H_def)
  have H2: "rep_byte 1 (Suc k) = H + 256 ^ k"
    by (simp only: rep_byte_one_Suc H_def)
  have "(X + acc) * rep_byte 1 (Suc k) =
      (a + acc) * rep_byte 1 (Suc k) + 256 * b * rep_byte 1 (Suc k)"
    unfolding X by (simp only: distrib_right add.assoc add.commute add.left_commute)
  also have "\<dots> = (a + acc) * (1 + 256 * H) + 256 * b * (H + 256 ^ k)"
    by (simp only: H1 [symmetric]) (simp only: H2 [symmetric])
  also have "\<dots> = ((acc + a) + 256 * ((b + (acc + a)) * H)) + 256 ^ Suc k * b"
    by (rule alg1)
  finally show ?thesis
    unfolding a_def b_def H_def .
qed

lemma mult_rep_byte_psum:
  "((X + acc) * rep_byte 1 k) mod 256 ^ k = psum k acc X mod 256 ^ k"
proof (induction k arbitrary: X acc)
  case 0
  show ?case by simp
next
  case (Suc k)
  define a where "a = X mod 256"
  define b where "b = X div 256"
  define H where "H = rep_byte 1 k"
  have "((X + acc) * rep_byte 1 (Suc k)) mod 256 ^ Suc k =
      ((acc + a) + 256 * ((b + (acc + a)) * H)) mod 256 ^ Suc k"
    unfolding a_def b_def H_def by (simp only: mult_rep_byte_step mod_mult_self2)
  also have "\<dots> = ((acc + a) + 256 * (((b + (acc + a)) * H) mod 256 ^ k)) mod (256 * 256 ^ k)"
    using mod_scale [of "acc + a" "(b + (acc + a)) * H" "256 ^ k"] by (simp only: power_Suc)
  also have "((b + (acc + a)) * H) mod 256 ^ k = psum k (acc + a) b mod 256 ^ k"
    unfolding H_def by (rule Suc.IH)
  also have "((acc + a) + 256 * (psum k (acc + a) b mod 256 ^ k)) mod (256 * 256 ^ k) =
      ((acc + a) + 256 * psum k (acc + a) b) mod (256 * 256 ^ k)"
    by (rule mod_scale [symmetric])
  finally show ?case
    unfolding a_def b_def by (simp only: psum.simps power_Suc)
qed

fun pop :: "nat \<Rightarrow> nat" where
  "pop n = (if n = 0 then 0 else n mod 2 + pop (n div 2))"

declare pop.simps [simp del]

lemma pop_0 [simp]: "pop 0 = 0"
  by (simp add: pop.simps)

lemma pop_rec: "pop n = n mod 2 + pop (n div 2)"
  by (cases "n = 0") (simp_all add: pop.simps [of n])

lemma pop_concat: "a < 2 ^ i \<Longrightarrow> pop (a + 2 ^ i * b) = pop a + pop b"
proof (induction i arbitrary: a)
  case 0
  then show ?case by simp
next
  case (Suc i)
  from Suc.prems have half: "a div 2 < 2 ^ i"
    by simp
  have shape: "a + 2 ^ Suc i * b = a + 2 * (2 ^ i * b)"
    by simp
  have "pop (a + 2 ^ Suc i * b) = (a + 2 ^ Suc i * b) mod 2 + pop ((a + 2 ^ Suc i * b) div 2)"
    by (rule pop_rec)
  also have "(a + 2 ^ Suc i * b) mod 2 = a mod 2"
    unfolding shape by (rule mod_mult_self2)
  also have "(a + 2 ^ Suc i * b) div 2 = a div 2 + 2 ^ i * b"
    unfolding shape by simp
  also have "pop (a div 2 + 2 ^ i * b) = pop (a div 2) + pop b"
    using half by (rule Suc.IH)
  finally show ?case
    using pop_rec [of a] by simp
qed

lemma pop_le: "n < 2 ^ k \<Longrightarrow> pop n \<le> k"
proof (induction k arbitrary: n)
  case 0
  then show ?case by simp
next
  case (Suc k)
  from Suc.prems have "n div 2 < 2 ^ k"
    by simp
  then have "pop (n div 2) \<le> k"
    by (rule Suc.IH)
  moreover have "n mod 2 \<le> 1"
    by simp
  ultimately show ?case
    using pop_rec [of n] by linarith
qed

lemma filter_bit_pop: "n < 2 ^ k \<Longrightarrow> length (filter (bit n) [0..<k]) = pop n"
proof (induction k arbitrary: n)
  case 0
  then show ?case by simp
next
  case (Suc k)
  from Suc.prems have "n div 2 < 2 ^ k"
    by simp
  then have IH: "length (filter (bit (n div 2)) [0..<k]) = pop (n div 2)"
    by (rule Suc.IH)
  have "[0..<Suc k] = 0 # map Suc [0..<k]"
    by (simp only: upt_conv_Cons [OF zero_less_Suc] map_Suc_upt)
  then have "filter (bit n) [0..<Suc k] =
      (if bit n 0 then [0] else []) @ map Suc (filter (bit n \<circ> Suc) [0..<k])"
    by (simp only: filter.simps filter_map) simp
  moreover have "bit n \<circ> Suc = bit (n div 2)"
    by (rule ext) (simp add: bit_Suc)
  ultimately have "length (filter (bit n) [0..<Suc k]) =
      (if odd n then 1 else 0) + length (filter (bit (n div 2)) [0..<k])"
    by (simp add: bit_0 del: upt_Suc)
  also have "(if odd n then 1 else 0) = n mod 2"
    by (simp add: odd_iff_mod_2_eq_one)
  finally show ?case
    using IH pop_rec [of n] by simp
qed

lemma byte_check1: "\<forall>a\<in>{..<256::nat}. st1 0x55 a < 256"
  by (simp add: lessThan_nat_numeral st1_def)

lemma byte_check2:
  "\<forall>a\<in>{..<256::nat}. st2 0x33 (st1 0x55 a) < 128 \<and> st2 0x33 (st1 0x55 a) mod 16 < 8"
  by (simp add: lessThan_nat_numeral st1_def st2_def)

lemma byte_check3: "\<forall>a\<in>{..<256::nat}. st3 0x0F (st2 0x33 (st1 0x55 a)) = pop a"
  by (simp add: lessThan_nat_numeral st1_def st2_def st3_def pop.simps and_15_mod)

definition eight :: nat where
  "eight = Suc (Suc (Suc (Suc (Suc (Suc (Suc (Suc 0)))))))"

lemma eight_eq: "eight = 8"
  by (simp add: eight_def)

lemma rep_byte_eight:
  "rep_byte 0x55 eight = 0x5555555555555555"
  "rep_byte 0x33 eight = 0x3333333333333333"
  "rep_byte 0x0F eight = 0x0F0F0F0F0F0F0F0F"
  "rep_byte 1 eight = 0x0101010101010101"
  by (simp_all add: eight_def)

lemma bytemap_less:
  assumes g: "\<And>a. a < 256 \<Longrightarrow> g a < 256"
  shows "bytemap g k W < 256 ^ k"
proof (induction k arbitrary: W)
  case 0
  show ?case by simp
next
  case (Suc k)
  have "g (W mod 256) < 256"
    by (rule g) simp
  moreover have "bytemap g k (W div 256) < 256 ^ k"
    by (rule Suc.IH)
  then have "256 * (bytemap g k (W div 256) + 1) \<le> 256 * 256 ^ k"
    by (simp only: mult_le_cancel1) simp
  ultimately show ?case
    by simp
qed

lemma bytemap_half:
  assumes g: "\<And>a. a < 256 \<Longrightarrow> g a < 128"
  shows "2 * bytemap g k W < 256 ^ k"
proof (induction k arbitrary: W)
  case 0
  show ?case by simp
next
  case (Suc k)
  have "g (W mod 256) < 128"
    by (rule g) simp
  moreover have "2 * bytemap g k (W div 256) < 256 ^ k"
    by (rule Suc.IH)
  then have "256 * (2 * bytemap g k (W div 256) + 1) \<le> 256 * 256 ^ k"
    by (simp only: mult_le_cancel1) simp
  ultimately show ?case
    by simp
qed

lemma bsum_bytemap_pop:
  assumes h: "\<And>a. a < 256 \<Longrightarrow> h a = pop a"
  shows "W < 256 ^ k \<Longrightarrow> bsum k (bytemap h k W) = pop W"
proof (induction k arbitrary: W)
  case 0
  then show ?case by simp
next
  case (Suc k)
  from Suc.prems have "W div 256 < 256 ^ k"
    by (simp add: less_mult_imp_div_less mult.commute)
  then have IH: "bsum k (bytemap h k (W div 256)) = pop (W div 256)"
    by (rule Suc.IH)
  have ha: "h (W mod 256) = pop (W mod 256)"
    by (rule h) simp
  have "W mod 256 < 2 ^ 8"
    by simp
  then have "pop (W mod 256) \<le> 8"
    by (rule pop_le)
  with ha have small: "h (W mod 256) < 256"
    by simp
  have "W mod 256 < 2 ^ 8"
    by simp
  then have "pop (W mod 256 + 2 ^ 8 * (W div 256)) = pop (W mod 256) + pop (W div 256)"
    by (rule pop_concat)
  then have cat: "pop W = pop (W mod 256) + pop (W div 256)"
    by simp
  show ?case
    using small by (simp add: IH ha cat)
qed

lemma byte_st1: "a < 256 \<Longrightarrow> st1 0x55 a < 256"
  using byte_check1 by simp

lemma byte_st2: "a < 256 \<Longrightarrow> st2 0x33 (st1 0x55 a) < 128"
  and byte_st2_mod: "a < 256 \<Longrightarrow> st2 0x33 (st1 0x55 a) mod 16 < 8"
  using byte_check2 by simp_all

lemma byte_st3: "a < 256 \<Longrightarrow> st3 0x0F (st2 0x33 (st1 0x55 a)) = pop a"
  using byte_check3 by simp

lemma unat_drop_bit_div: "unat (drop_bit n w) = unat w div 2 ^ n"
  unfolding unat_drop_bit_eq by (rule drop_bit_eq_div)

lemma two_64: "(2 :: nat) ^ 64 = 256 ^ eight"
  by (simp add: eight_def)

lemma swar_unat:
  fixes v :: "64 word"
  defines "v1 \<equiv> v - (drop_bit 1 v AND 0x5555555555555555)"
  defines "v2 \<equiv> (v1 AND 0x3333333333333333) + (drop_bit 2 v1 AND 0x3333333333333333)"
  defines "v3 \<equiv> (v2 + drop_bit 4 v2) AND 0xF0F0F0F0F0F0F0F"
  shows "unat (drop_bit 56 (v3 * 0x101010101010101)) = pop (unat v)"
proof -
  define V where "V = unat v"
  have "unat v < 2 ^ LENGTH(64)"
    by (rule unsigned_less)
  then have V: "V < 256 ^ eight"
    by (simp add: V_def eight_def)
  have m1: "unat (drop_bit 1 v AND 0x5555555555555555) = (V div 2) AND 0x5555555555555555"
    by (simp add: unsigned_and_eq unat_drop_bit_div V_def)
  have "(V div 2) AND 0x5555555555555555 \<le> V div 2"
    by (rule and_nat_le)
  then have "unat (drop_bit 1 v AND 0x5555555555555555) \<le> unat v"
    unfolding m1 V_def by linarith
  then have "drop_bit 1 v AND 0x5555555555555555 \<le> v"
    by (simp only: word_le_nat_alt)
  then have "unat v1 = unat v - unat (drop_bit 1 v AND 0x5555555555555555)"
    unfolding v1_def by (rule unat_sub)
  then have "unat v1 = st1 0x5555555555555555 V"
    by (simp only: m1 st1_def V_def)
  also have "\<dots> = st1 (rep_byte 0x55 eight) (bytemap (\<lambda>a. a) eight V)"
    by (simp only: rep_byte_eight bytemap_id [OF V])
  also have "\<dots> = bytemap (\<lambda>a. st1 0x55 a) eight V"
    by (rule st1_bytemap)
  finally have u1: "unat v1 = bytemap (\<lambda>a. st1 0x55 a) eight V" .
  have s2: "st2 (rep_byte 0x33 eight) (unat v1) = bytemap (\<lambda>a. st2 0x33 (st1 0x55 a)) eight V"
    unfolding u1 by (rule st2_bytemap) (rule byte_st1)
  have "bytemap (\<lambda>a. st2 0x33 (st1 0x55 a)) eight V < 256 ^ eight"
    by (rule bytemap_less) (use byte_st2 in fastforce)
  then have "st2 0x3333333333333333 (unat v1) < 2 ^ LENGTH(64)"
    by (simp only: s2 [symmetric] rep_byte_eight) (simp add: eight_def)
  moreover have "st2 0x3333333333333333 (unat v1) =
      unat (v1 AND 0x3333333333333333) + unat (drop_bit 2 v1 AND 0x3333333333333333)"
    by (simp add: st2_def unsigned_and_eq unat_drop_bit_div)
  ultimately have "unat v2 =
      unat (v1 AND 0x3333333333333333) + unat (drop_bit 2 v1 AND 0x3333333333333333)"
    unfolding v2_def by (simp only: unat_add_lem [THEN iffD1])
  then have "unat v2 = st2 (rep_byte 0x33 eight) (unat v1)"
    by (simp add: st2_def unsigned_and_eq unat_drop_bit_div rep_byte_eight)
  with s2 have u2: "unat v2 = bytemap (\<lambda>a. st2 0x33 (st1 0x55 a)) eight V"
    by simp
  have "2 * bytemap (\<lambda>a. st2 0x33 (st1 0x55 a)) eight V < 256 ^ eight"
    by (rule bytemap_half) (rule byte_st2)
  then have "unat v2 + unat (drop_bit 4 v2) < 2 ^ LENGTH(64)"
    unfolding u2 [symmetric] by (simp add: unat_drop_bit_div eight_def)
  then have "unat (v2 + drop_bit 4 v2) = unat v2 + unat v2 div 16"
    by (simp add: unat_add_lem [THEN iffD1] unat_drop_bit_div)
  then have "unat v3 = st3 (rep_byte 0x0F eight) (unat v2)"
    by (simp add: v3_def unsigned_and_eq st3_def rep_byte_eight)
  also have "\<dots> = bytemap (\<lambda>a. st3 0x0F (st2 0x33 (st1 0x55 a))) eight V"
    unfolding u2 by (rule st3_bytemap) (rule byte_st2, assumption, rule byte_st2_mod)
  finally have u3: "unat v3 = bytemap (\<lambda>a. st3 0x0F (st2 0x33 (st1 0x55 a))) eight V" .
  have total: "bsum eight (unat v3) = pop V"
    unfolding u3 using V by (rule bsum_bytemap_pop [rotated]) (rule byte_st3)
  have "V < 2 ^ 64"
    using V by (simp add: eight_def)
  then have "pop V \<le> 64"
    by (rule pop_le)
  with total have small: "0 + bsum eight (unat v3) < 256"
    by simp
  have e7: "eight = Suc 7"
    by (simp add: eight_def)
  have a: "unat (v3 * 0x101010101010101) =
      (unat v3 * unat (0x101010101010101 :: 64 word)) mod 2 ^ LENGTH(64)"
    by (rule unat_word_ariths(2))
  have b: "unat (0x101010101010101 :: 64 word) = rep_byte 1 eight"
    by (simp only: rep_byte_eight) simp
  have c: "(2 :: nat) ^ LENGTH(64) = 256 ^ eight"
    by (simp add: eight_def)
  have p56: "(2 :: nat) ^ 56 = 256 ^ 7"
    by simp
  have "unat (drop_bit 56 (v3 * 0x101010101010101)) =
      ((unat v3 + 0) * rep_byte 1 eight) mod 256 ^ eight div 256 ^ 7"
    by (simp only: unat_drop_bit_div a b c p56 add_0_right)
  also have "((unat v3 + 0) * rep_byte 1 eight) mod 256 ^ eight =
      psum eight 0 (unat v3) mod 256 ^ eight"
    by (rule mult_rep_byte_psum)
  also have "psum eight 0 (unat v3) mod 256 ^ eight = psum eight 0 (unat v3)"
    using psum_bound [OF small] by (rule mod_less)
  also have "psum eight 0 (unat v3) div 256 ^ 7 = 0 + bsum eight (unat v3)"
    unfolding e7 by (rule psum_top) (use small in \<open>simp only: e7\<close>)
  finally show ?thesis
    by (simp only: total V_def add_0_left)
qed

lemma popcount_filter: "length (filter (bit v) [0..<64]) = pop (unat v)" for v :: "64 word"
proof -
  have "unat v < 2 ^ LENGTH(64)"
    by (rule unsigned_less)
  then have "unat v < 2 ^ 64"
    by simp
  then have "length (filter (bit (unat v)) [0..<64]) = pop (unat v)"
    by (rule filter_bit_pop)
  moreover have "bit (unat v) = bit v"
    by (rule ext) (simp add: bit_unsigned_iff)
  ultimately show ?thesis
    by simp
qed

lemma int_cast_small:
  fixes w :: "64 word"
  assumes "unat w \<le> 64"
  shows "sint (ucast w :: 32 word) = int (unat w)"
proof -
  have "uint w = int (unat w)"
    by (rule uint_nat)
  with assms have small: "uint w \<le> 64"
    by linarith
  have "uint (ucast w :: 32 word) = take_bit LENGTH(32) (uint w)"
    by (rule unsigned_ucast_eq)
  also have "\<dots> = uint w"
  proof (rule take_bit_int_eq_self)
    show "0 \<le> uint w"
      by simp
    from small have "uint w < 2 ^ 32"
      by simp
    then show "uint w < 2 ^ LENGTH(32)"
      by simp
  qed
  finally have u: "uint (ucast w :: 32 word) = uint w" .
  have "sint (ucast w :: 32 word) = signed_take_bit (LENGTH(32) - Suc 0) (uint (ucast w :: 32 word))"
    by (rule sint_uint)
  also have "\<dots> = uint w"
    unfolding u
  proof (rule signed_take_bit_int_eq_self)
    have "- (2 ^ (LENGTH(32) - Suc 0)) \<le> (0 :: int)"
      by simp
    also have "0 \<le> uint w"
      by simp
    finally show "- (2 ^ (LENGTH(32) - Suc 0)) \<le> uint w" .
    from small have "uint w < 2 ^ 31"
      by simp
    then show "uint w < 2 ^ (LENGTH(32) - Suc 0)"
      by simp
  qed
  finally show ?thesis
    by (simp only: uint_nat)
qed

lemma GetHammingDistanceCore_pop: "GetHammingDistanceCore popcnt v = int (pop (unat v))"
proof (cases popcnt)
  case True
  then show ?thesis
    by (simp add: GetHammingDistanceCore_def builtin_popcountll_def popcount_filter)
next
  case False
  define v1 where "v1 = v - (drop_bit 1 v AND 0x5555555555555555)"
  define v2 where "v2 = (v1 AND 0x3333333333333333) + (drop_bit 2 v1 AND 0x3333333333333333)"
  define r where "r = drop_bit 56 (((v2 + drop_bit 4 v2) AND 0xF0F0F0F0F0F0F0F) * 0x101010101010101)"
  have r: "unat r = pop (unat v)"
    unfolding r_def v2_def v1_def by (rule swar_unat)
  have "unat v < 2 ^ LENGTH(64)"
    by (rule unsigned_less)
  then have "unat v < 2 ^ 64"
    by simp
  then have "pop (unat v) \<le> 64"
    by (rule pop_le)
  with r have "sint (ucast r :: 32 word) = int (pop (unat v))"
    by (simp add: int_cast_small)
  moreover from False have "GetHammingDistanceCore popcnt v = sint (ucast r :: 32 word)"
    by (simp only: GetHammingDistanceCore_def Let_def r_def v2_def v1_def if_False)
  ultimately show ?thesis
    by simp
qed

lemma pop_xor: "pop (unat (x XOR y)) = length (filter (\<lambda>i. bit x i \<noteq> bit y i) [0..<64])"
  for x y :: "64 word"
proof -
  have "bit (x XOR y) = (\<lambda>i. bit x i \<noteq> bit y i)"
    by (rule ext) (simp add: bit_xor_iff)
  then show ?thesis
    by (simp flip: popcount_filter)
qed

text \<open>
  Claim C3. For every 64-bit word \<open>v\<close>, the software path of the Hamming distance returns
  the number of set bits of \<open>v\<close>, so the hardware path and the software path return the
  same value; and the distance of two words, signed or unsigned, is the number of bit
  positions in which they differ, between 0 and 64.
\<close>

theorem hamming_distance_is_popcount:
  fixes v x y :: "64 word"
  shows "GetHammingDistanceCore False v = int (length (filter (bit v) [0..<64]))
    \<and> GetHammingDistanceCore True v = GetHammingDistanceCore False v
    \<and> GetHammingDistance_u64_u64 popcnt x y =
        int (length (filter (\<lambda>i. bit x i \<noteq> bit y i) [0..<64]))
    \<and> GetHammingDistance_i64_i64 popcnt x y =
        int (length (filter (\<lambda>i. bit x i \<noteq> bit y i) [0..<64]))
    \<and> 0 \<le> GetHammingDistance_u64_u64 popcnt x y
    \<and> GetHammingDistance_u64_u64 popcnt x y \<le> 64"
proof -
  have "length (filter (\<lambda>i. bit x i \<noteq> bit y i) [0..<64]) \<le> length [0..<64::nat]"
    by (rule length_filter_le)
  then have "length (filter (\<lambda>i. bit x i \<noteq> bit y i) [0..<64]) \<le> 64"
    by simp
  then show ?thesis
    by (simp add: GetHammingDistance_u64_u64_def GetHammingDistance_i64_i64_def
        GetHammingDistance_u64_def GetHammingDistanceCore_pop popcount_filter pop_xor)
qed

theorem hamming_distance_is_popcount_witness:
  "GetHammingDistance_u64_u64 False 0xAAAA 0xAAAB = 1
    \<and> GetHammingDistance_u64_u64 True 0xAAAA 0xAAAB = 1
    \<and> GetHammingDistanceCore True 0xAAAAAAAAAAAAAAAA = 32"
proof -
  have swar: "GetHammingDistanceCore False 1 = 1"
    "GetHammingDistanceCore False 0xAAAAAAAAAAAAAAAA = 32"
    by (simp_all add: GetHammingDistanceCore_def)
  have x: "(0xAAAA :: 64 word) XOR 0xAAAB = 1"
    by simp
  from hamming_distance_is_popcount [where v = 1]
  have "GetHammingDistanceCore True 1 = GetHammingDistanceCore False 1"
    by simp
  moreover from hamming_distance_is_popcount [where v = "0xAAAAAAAAAAAAAAAA"]
  have "GetHammingDistanceCore True 0xAAAAAAAAAAAAAAAA = GetHammingDistanceCore False 0xAAAAAAAAAAAAAAAA"
    by simp
  ultimately show ?thesis
    using swar by (simp add: GetHammingDistance_u64_u64_def GetHammingDistance_u64_def x)
qed

section \<open>The whole call in closed form\<close>

text \<open>
  The loops of the byte core never leave their vectors, so a call of
  \<^verbatim>\<open>GetCrossCorrelation\<close> returns a value, whatever the arithmetic: the square root of the
  greatest ratio of the centred vectors.
\<close>

lemma sum_loop_stop: "\<not> i < len \<Longrightarrow> sum_loop x y len i s = Inr s"
  by (cases s) (simp add: sum_loop.simps)

lemma sum_loop_foldl:
  assumes "0 \<le> i" and "len \<le> int (length x)" and "len \<le> int (length y)"
  shows "sum_loop x y len i (sx, sy) =
    Inr (foldl (\<lambda>s k. s + ucast (x ! k)) sx [nat i..<nat len],
         foldl (\<lambda>s k. s + ucast (y ! k)) sy [nat i..<nat len])"
  using assms
proof (induction "nat (len - i)" arbitrary: i sx sy)
  case 0
  then have "\<not> i < len" by simp
  moreover from this have "[nat i..<nat len] = []"
    by simp
  ultimately show ?case
    by (simp add: sum_loop_stop)
next
  case (Suc m)
  from Suc.hyps(2) have lt: "i < len"
    by linarith
  from lt Suc.prems have ax: "vec_at x i = Inr (x ! nat i)"
    by (simp add: vec_at_def)
  from lt Suc.prems have ay: "vec_at y i = Inr (y ! nat i)"
    by (simp add: vec_at_def)
  from lt Suc.prems have range: "[nat i..<nat len] = nat i # [nat (i + 1)..<nat len]"
    by (intro upt_int_step)
  from Suc.hyps(2) have m: "m = nat (len - (i + 1))"
    by linarith
  have step: "sum_loop x y len i (sx, sy) =
      sum_loop x y len (i + 1) (sx + ucast (x ! nat i), sy + ucast (y ! nat i))"
    by (subst sum_loop.simps) (simp add: lt ax ay)
  have rest: "sum_loop x y len (i + 1) (tx, ty) =
      Inr (foldl (\<lambda>s k. s + ucast (x ! k)) tx [nat (i + 1)..<nat len],
           foldl (\<lambda>s k. s + ucast (y ! k)) ty [nat (i + 1)..<nat len])" for tx ty
    using Suc.prems by (intro Suc.hyps(1) [OF m]) simp_all
  show ?case
    unfolding step rest range by simp
qed

lemma center_loop_stop: "\<not> i < len \<Longrightarrow> center_loop ops x y len mx my i s = Inr s"
  by (cases s) (simp add: center_loop.simps)

lemma take_Suc_update: "k < length xs \<Longrightarrow> take (Suc k) (xs[k := v]) = take k xs @ [v]"
  by (simp add: take_Suc_conv_app_nth)

lemma center_loop_map:
  assumes "0 \<le> i" and "len \<le> int (length x)" and "len \<le> int (length y)"
    and "length fx = nat len" and "length fy = nat len"
  shows "center_loop ops x y len mx my i (fx, fy) =
    Inr (take (nat i) fx @ map (\<lambda>k. f_sub ops (f_of_int ops (uint (x ! k))) mx) [nat i..<nat len],
         take (nat i) fy @ map (\<lambda>k. f_sub ops (f_of_int ops (uint (y ! k))) my) [nat i..<nat len])"
  using assms
proof (induction "nat (len - i)" arbitrary: i fx fy)
  case 0
  then have stop: "\<not> i < len" by simp
  then have "[nat i..<nat len] = []"
    by simp
  moreover from stop 0 have "take (nat i) fx = fx" and "take (nat i) fy = fy"
    by simp_all
  ultimately show ?case
    using stop by (simp add: center_loop_stop)
next
  case (Suc m)
  let ?vx = "f_sub ops (f_of_int ops (uint (x ! nat i))) mx"
  let ?vy = "f_sub ops (f_of_int ops (uint (y ! nat i))) my"
  from Suc.hyps(2) have lt: "i < len"
    by linarith
  from lt Suc.prems have ax: "vec_at x i = Inr (x ! nat i)"
    by (simp add: vec_at_def)
  from lt Suc.prems have ay: "vec_at y i = Inr (y ! nat i)"
    by (simp add: vec_at_def)
  from lt Suc.prems have kx: "nat i < length fx" and ky: "nat i < length fy"
    by simp_all
  from lt Suc.prems have px: "vec_put fx i ?vx = Inr (fx[nat i := ?vx])"
    by (simp add: vec_put_def)
  from lt Suc.prems have py: "vec_put fy i ?vy = Inr (fy[nat i := ?vy])"
    by (simp add: vec_put_def)
  from lt Suc.prems have range: "[nat i..<nat len] = nat i # [nat (i + 1)..<nat len]"
    by (intro upt_int_step)
  from Suc.prems have next_i: "nat (i + 1) = Suc (nat i)"
    by simp
  from Suc.hyps(2) have m: "m = nat (len - (i + 1))"
    by linarith
  have step: "center_loop ops x y len mx my i (fx, fy) =
      center_loop ops x y len mx my (i + 1) (fx[nat i := ?vx], fy[nat i := ?vy])"
    by (subst center_loop.simps) (simp add: lt ax ay px py)
  have rest: "center_loop ops x y len mx my (i + 1) (fx[nat i := ?vx], fy[nat i := ?vy]) =
      Inr (take (nat (i + 1)) (fx[nat i := ?vx]) @
             map (\<lambda>k. f_sub ops (f_of_int ops (uint (x ! k))) mx) [nat (i + 1)..<nat len],
           take (nat (i + 1)) (fy[nat i := ?vy]) @
             map (\<lambda>k. f_sub ops (f_of_int ops (uint (y ! k))) my) [nat (i + 1)..<nat len])"
    using Suc.prems by (intro Suc.hyps(1) [OF m]) simp_all
  show ?case
    unfolding step rest range next_i
    by (simp only: take_Suc_update [OF kx] take_Suc_update [OF ky] list.map append_assoc
        append_Cons append_Nil)
qed

lemma max_loop_stop: "\<not> d < length x \<Longrightarrow> max_loop ops x y d mx = Inr mx"
  by (simp add: max_loop.simps)

lemma max_loop_foldl:
  assumes "length y = length x"
  shows "max_loop ops x y d mx =
    Inr (foldl (\<lambda>m d. f_max ops m
        (offset_ratio ops (num_mod ops x y d, denx_mod ops x, deny_mod ops x y d)))
       mx [d..<length x])"
proof (induction "length x - d" arbitrary: d mx)
  case 0
  then show ?case
    by (simp add: max_loop_stop)
next
  case (Suc m)
  from Suc.hyps(2) have lt: "d < length x"
    by linarith
  from Suc.hyps(2) have m: "m = length x - (d + 1)"
    by linarith
  have range: "[d..<length x] = d # [d + 1..<length x]"
    using lt by (simp add: upt_conv_Cons)
  have "max_loop ops x y d mx = max_loop ops x y (d + 1)
      (f_max ops mx (offset_ratio ops (num_mod ops x y d, denx_mod ops x, deny_mod ops x y d)))"
    using lt by (subst max_loop.simps)
      (simp add: GetCrossCorrelationForOffset_cyclic [OF assms lt])
  then show ?case
    unfolding range by (simp only: Suc.hyps(1) [OF m] foldl.simps)
qed

lemma GetCrossCorrelationCore_float_closed:
  assumes "length y = length x"
  shows "GetCrossCorrelationCore_float ops x y = Inr (f_sqrt ops (best_ratio ops x y))"
  by (simp add: GetCrossCorrelationCore_float_def max_loop_foldl [OF assms] best_ratio_def)

lemma GetCrossCorrelationCore_bytes_closed:
  assumes "n \<le> length x" and "n \<le> length y"
  shows "GetCrossCorrelationCore_bytes ops x y (int n) =
    Inr (f_sqrt ops (best_ratio ops (centered ops x n) (centered ops y n)))"
proof -
  have sums: "sum_loop x y (int n) 0 (0, 0) = Inr (byte_sum x n, byte_sum y n)"
    using assms by (subst sum_loop_foldl) (simp_all add: byte_sum_def)
  have fill: "center_loop ops x y (int n) (mean_of ops (byte_sum x n) (int n))
      (mean_of ops (byte_sum y n) (int n)) 0
      (replicate n (f_zero ops), replicate n (f_zero ops)) =
    Inr (centered ops x n, centered ops y n)"
    using assms by (subst center_loop_map) (simp_all add: centered_def)
  have "length (centered ops y n) = length (centered ops x n)"
    by (simp add: centered_def)
  then show ?thesis
    using assms
    by (simp add: GetCrossCorrelationCore_bytes_def sums fill GetCrossCorrelationCore_float_closed)
qed

lemma GetCrossCorrelation_closed:
  "GetCrossCorrelation ops a b =
    Inr (f_sqrt ops (best_ratio ops (centered ops a (min (length a) (length b)))
      (centered ops b (min (length a) (length b)))))"
  unfolding GetCrossCorrelation_def by (rule GetCrossCorrelationCore_bytes_closed) simp_all

lemmas single_eval = round_units_def round_to_even_def Let_def bits.simps isqrt.simps
  sqrt_units_def sqrt_round_def single_sub_def isqrt_step_def single_of_int_def

lemma ieee_single_simps [simp]:
  "f_of_int ieee_single = single_of_int" "f_add ieee_single = single_add"
  "f_sub ieee_single = single_sub" "f_mul ieee_single = single_mul"
  "f_div ieee_single = single_div" "f_less ieee_single = single_less"
  "f_eq ieee_single = single_eq" "f_sqrt ieee_single = single_sqrt"
  by (simp_all add: ieee_single_def)

end
